theory Spec2Isabelle
  imports Main
begin

section \<open>The log collector of jitsi-meet-logger\<close>

text \<open>
  A shallow embedding of \<^verbatim>\<open>lib/LogCollector.ts\<close>: the class \<^verbatim>\<open>LogCollector\<close>, its
  constructor, \<^verbatim>\<open>stringify\<close>, \<^verbatim>\<open>formatLogMessage\<close>, \<^verbatim>\<open>_log\<close>, \<^verbatim>\<open>start\<close>,
  \<^verbatim>\<open>_reschedulePublishInterval\<close>, \<^verbatim>\<open>flush\<close>, \<^verbatim>\<open>stop\<close> and \<^verbatim>\<open>_flush\<close>, together with
  the level table of \<^verbatim>\<open>Logger.ts\<close> that the constructor enumerates. The JavaScript variant of
  the same class (the last \<^verbatim>\<open>LogCollector.js\<close> of the unnamed sources), which guards its calls
  to the storage, is embedded next to it under names ending in \<^verbatim>\<open>_js\<close>.

  A name of the source with a leading underscore is written with a prime at the end
  (\<^verbatim>\<open>_log\<close> is \<open>log'\<close>, \<^verbatim>\<open>_flush\<close> is \<open>flush'\<close>), the field \<^verbatim>\<open>text\<close> of a queue
  entry is \<open>entry_text\<close>.

  The collector is single threaded. Its fields, the state of the storage it writes to and
  the part of the host environment it touches (the timeouts of \<^verbatim>\<open>window\<close>, the console) are
  one record that every operation takes and returns. An operation returns a completion as
  well: an exception that leaves a JavaScript function leaves the mutated state behind, so
  the state is returned on both branches.
\<close>

subsection \<open>JavaScript values\<close>

text \<open>
  The collector observes four things of a logged argument: whether \<^verbatim>\<open>typeof\<close> says
  \<^verbatim>\<open>'object'\<close>, whether it is truthy, its text under the default coercion and what
  \<^verbatim>\<open>JSON.stringify\<close> makes of it. The values with \<^verbatim>\<open>typeof arg === 'object'\<close> are
  \<^verbatim>\<open>null\<close> and the objects, the constructor \<open>JObj\<close> below; an object carries
  the result of \<^verbatim>\<open>JSON.stringify\<close> (\<open>None\<close> when it throws, as for circular references)
  and its default text (\<^verbatim>\<open>[object Object]\<close> for a plain object). Numbers and booleans
  are primitives that carry their truthiness and their text.
\<close>

datatype js_object =
    JNull
  | JObject "string option" string

datatype js_value =
    JUndefined
  | JString string
  | JPrimitive bool string
  | JObj js_object

fun truthy :: "js_value \<Rightarrow> bool" where
  "truthy JUndefined = False"
| "truthy (JString s) = (s \<noteq> [])"
| "truthy (JPrimitive b s) = b"
| "truthy (JObj JNull) = False"
| "truthy (JObj (JObject j s)) = True"

text \<open>\<^verbatim>\<open>JSON.stringify\<close> on a value of type object: the text, or \<open>None\<close> when it throws.\<close>

fun JSON_stringify :: "js_object \<Rightarrow> string option" where
  "JSON_stringify JNull = Some ''null''"
| "JSON_stringify (JObject j s) = j"

text \<open>
  The text of one element in \<^verbatim>\<open>Array.prototype.join\<close>: \<^verbatim>\<open>undefined\<close> and \<^verbatim>\<open>null\<close>
  are the empty string, every other element is coerced to a string.
\<close>

fun join_text :: "js_value \<Rightarrow> string" where
  "join_text JUndefined = []"
| "join_text (JString s) = s"
| "join_text (JPrimitive b s) = s"
| "join_text (JObj JNull) = []"
| "join_text (JObj (JObject j s)) = s"

fun join :: "string \<Rightarrow> js_value list \<Rightarrow> string" where
  "join sep [] = []"
| "join sep [x] = join_text x"
| "join sep (x # y # ys) = join_text x @ sep @ join sep (y # ys)"

subsection \<open>Logger.levels\<close>

text \<open>
  \<^verbatim>\<open>Logger.levels\<close> is the string enum \<^verbatim>\<open>LevelConstants\<close>: an object with upper case keys and
  lower case values, in this order.
\<close>

definition Logger_levels :: "(string \<times> string) list" where
  "Logger_levels =
     [(''TRACE'', ''trace''), (''DEBUG'', ''debug''), (''INFO'', ''info''),
      (''LOG'', ''log''), (''WARN'', ''warn''), (''ERROR'', ''error'')]"

definition Logger_levels_ERROR :: string where
  "Logger_levels_ERROR = ''error''"

subsection \<open>The storage, the collector and its environment\<close>

datatype 'a completion = Returns 'a | Raises string

record log_entry =
  entry_text :: string
  timestamp :: js_value
  count :: nat

text \<open>
  The storage is a collaborator of unknown code: \<^verbatim>\<open>isReady\<close> and \<^verbatim>\<open>storeLogs\<close> run on a
  state of its own, answer or throw, and may change that state. The storage does not call
  back into the collector.
\<close>

record 's LogStorage =
  storeLogs :: "log_entry list \<Rightarrow> 's \<Rightarrow> unit completion \<times> 's"
  isReady :: "'s \<Rightarrow> bool completion \<times> 's"

datatype storage_call = IsReady | StoreLogs "log_entry list"

record Options =
  opt_maxEntryLength :: "int option"
  opt_storeInterval :: "int option"
  opt_stringifyObjects :: "bool option"

text \<open>
  The fields of the class, then the environment: the state of the storage, the calls made
  to it so far, the timeouts pending in \<^verbatim>\<open>window\<close> (identifier and delay; the callback is
  always \<^verbatim>\<open>_flush(false, true)\<close>), the identifier \<^verbatim>\<open>window.setTimeout\<close> returns next, and
  the lines written with \<^verbatim>\<open>console.error\<close>.
\<close>

record 's LogCollector =
  logStorage :: "'s LogStorage"
  stringifyObjects :: bool
  storeInterval :: int
  maxEntryLength :: int
  storeLogsIntervalID :: "nat option"
  queue :: "log_entry list"
  totalLen :: nat
  outputCache :: "log_entry list list"
  storage :: 's
  calls :: "storage_call list"
  timeouts :: "(nat \<times> int) list"
  nextTimeoutID :: nat
  console_error :: "string list"

subsection \<open>The constructor\<close>

text \<open>
  \<^verbatim>\<open>options && options.f ? options.f : d\<close>: the default is taken when there are no options,
  when the field is absent and when it is falsy (\<open>0\<close> for a number, \<^verbatim>\<open>false\<close> for a boolean).
\<close>

definition option_number :: "Options option \<Rightarrow> (Options \<Rightarrow> int option) \<Rightarrow> int \<Rightarrow> int" where
  "option_number options field d =
     (case options of
        None \<Rightarrow> d
      | Some opts \<Rightarrow> (case field opts of None \<Rightarrow> d | Some n \<Rightarrow> if n \<noteq> 0 then n else d))"

definition option_boolean :: "Options option \<Rightarrow> (Options \<Rightarrow> bool option) \<Rightarrow> bool \<Rightarrow> bool" where
  "option_boolean options field d =
     (case options of
        None \<Rightarrow> d
      | Some opts \<Rightarrow> (case field opts of None \<Rightarrow> d | Some b \<Rightarrow> if b then b else d))"

text \<open>
  The constructor, given the storage object, the options and the environment the collector
  is created in (the storage's state, the pending timeouts, the next timeout identifier).
\<close>

definition new_LogCollector ::
  "'s LogStorage \<Rightarrow> Options option \<Rightarrow> 's \<Rightarrow> (nat \<times> int) list \<Rightarrow> nat \<Rightarrow> 's LogCollector" where
  "new_LogCollector ls options s pending next_id =
     \<lparr> logStorage = ls,
       stringifyObjects = option_boolean options opt_stringifyObjects False,
       storeInterval = option_number options opt_storeInterval 30000,
       maxEntryLength = option_number options opt_maxEntryLength 10000,
       storeLogsIntervalID = None,
       queue = [],
       totalLen = 0,
       outputCache = [],
       storage = s,
       calls = [],
       timeouts = pending,
       nextTimeoutID = next_id,
       console_error = [] \<rparr>"

text \<open>
  The constructor's loop over \<^verbatim>\<open>Object.keys(Logger.levels)\<close>: for the key \<^verbatim>\<open>logLevel\<close> it
  installs, under the name \<^verbatim>\<open>Logger.levels[logLevel]\<close>, a method that calls \<^verbatim>\<open>_log\<close> with
  \<^verbatim>\<open>logLevel\<close> bound as the first argument. The table gives, for a method name, the bound
  first argument.
\<close>

definition level_methods :: "(string \<times> string) list" where
  "level_methods = map (\<lambda>(logLevel, methodName). (methodName, logLevel)) Logger_levels"

subsection \<open>Formatting\<close>

definition stringify :: "js_object \<Rightarrow> string" where
  "stringify someObject =
     (case JSON_stringify someObject of
        Some s \<Rightarrow> s
      | None \<Rightarrow> ''[object with circular refs?]'')"

text \<open>
  \<^verbatim>\<open>processArg\<close>, the closure of \<^verbatim>\<open>formatLogMessage\<close>: it pushes onto \<^verbatim>\<open>parts\<close>.
\<close>

fun processArg :: "bool \<Rightarrow> string \<Rightarrow> js_value list \<Rightarrow> js_value \<Rightarrow> js_value list" where
  "processArg so logLevel parts (JObj ob) =
     (if so \<or> logLevel = Logger_levels_ERROR
      then parts @ [JString (stringify ob)]
      else parts @ [JObj ob])"
| "processArg so logLevel parts arg = parts @ [arg]"

definition formatLogMessage ::
  "'s LogCollector \<Rightarrow> string \<Rightarrow> js_value \<Rightarrow> js_value list \<Rightarrow> string option" where
  "formatLogMessage this logLevel ts args =
     (let parts0 = (if truthy ts then processArg (stringifyObjects this) logLevel [] ts else []);
          parts = foldl (processArg (stringifyObjects this) logLevel) parts0 args
      in if length parts \<noteq> 0 then Some (join '','' parts) else None)"

subsection \<open>Timeouts\<close>

text \<open>
  \<^verbatim>\<open>_reschedulePublishInterval\<close>: a truthy identifier is cleared first, then one timeout of
  \<^verbatim>\<open>storeInterval\<close> is set and its identifier kept.
\<close>

definition clearTimeout :: "nat \<Rightarrow> 's LogCollector \<Rightarrow> 's LogCollector" where
  "clearTimeout i this = this\<lparr>timeouts := filter (\<lambda>(j, d). j \<noteq> i) (timeouts this)\<rparr>"

definition setTimeout :: "int \<Rightarrow> 's LogCollector \<Rightarrow> nat \<times> 's LogCollector" where
  "setTimeout d this =
     (nextTimeoutID this,
      this\<lparr>timeouts := timeouts this @ [(nextTimeoutID this, d)],
           nextTimeoutID := Suc (nextTimeoutID this)\<rparr>)"

definition reschedulePublishInterval :: "'s LogCollector \<Rightarrow> 's LogCollector" where
  "reschedulePublishInterval this =
     (let this1 =
            (case storeLogsIntervalID this of
               None \<Rightarrow> this
             | Some i \<Rightarrow>
                 if i \<noteq> 0 then (clearTimeout i this)\<lparr>storeLogsIntervalID := None\<rparr> else this);
          (i, this2) = setTimeout (storeInterval this1) this1
      in this2\<lparr>storeLogsIntervalID := Some i\<rparr>)"

definition start :: "'s LogCollector \<Rightarrow> 's LogCollector" where
  "start this = reschedulePublishInterval this"

subsection \<open>Flushing\<close>

definition call_isReady :: "'s LogCollector \<Rightarrow> bool completion \<times> 's LogCollector" where
  "call_isReady this =
     (let (r, s) = isReady (logStorage this) (storage this)
      in (r, this\<lparr>storage := s, calls := calls this @ [IsReady]\<rparr>))"

definition call_storeLogs ::
  "log_entry list \<Rightarrow> 's LogCollector \<Rightarrow> unit completion \<times> 's LogCollector" where
  "call_storeLogs logs this =
     (let (r, s) = storeLogs (logStorage this) logs (storage this)
      in (r, this\<lparr>storage := s, calls := calls this @ [StoreLogs logs]\<rparr>))"

text \<open>
  \<^verbatim>\<open>this.outputCache.forEach(cachedQueue => this.logStorage.storeLogs(cachedQueue))\<close>: an
  exception of the callback ends the loop and leaves \<^verbatim>\<open>forEach\<close>.
\<close>

fun forEach_storeLogs ::
  "log_entry list list \<Rightarrow> 's LogCollector \<Rightarrow> unit completion \<times> 's LogCollector" where
  "forEach_storeLogs [] this = (Returns (), this)"
| "forEach_storeLogs (cachedQueue # rest) this =
     (case call_storeLogs cachedQueue this of
        (Raises e, this1) \<Rightarrow> (Raises e, this1)
      | (Returns u, this1) \<Rightarrow> forEach_storeLogs rest this1)"

text \<open>
  The condition \<^verbatim>\<open>this.totalLen > 0 && ( this.logStorage.isReady() || force )\<close>: the storage
  is asked only when there is something to send.
\<close>

definition flush_condition :: "bool \<Rightarrow> 's LogCollector \<Rightarrow> bool completion \<times> 's LogCollector" where
  "flush_condition force this =
     (if totalLen this > 0
      then (case call_isReady this of
              (Raises e, this1) \<Rightarrow> (Raises e, this1)
            | (Returns ready, this1) \<Rightarrow> (Returns (ready \<or> force), this1))
      else (Returns False, this))"

text \<open>The branch taken when the second \<^verbatim>\<open>isReady()\<close> answers true.\<close>

definition send_all :: "'s LogCollector \<Rightarrow> unit completion \<times> 's LogCollector" where
  "send_all this =
     (case (if length (outputCache this) \<noteq> 0
            then (case forEach_storeLogs (outputCache this) this of
                    (Raises e, this1) \<Rightarrow> (Raises e, this1)
                  | (Returns u, this1) \<Rightarrow> (Returns (), this1\<lparr>outputCache := []\<rparr>))
            else (Returns (), this)) of
        (Raises e, this1) \<Rightarrow> (Raises e, this1)
      | (Returns u, this1) \<Rightarrow> call_storeLogs (queue this1) this1)"

text \<open>The body of the outer \<^verbatim>\<open>if\<close> of \<^verbatim>\<open>_flush\<close>, entered when its condition holds.\<close>

definition publish :: "'s LogCollector \<Rightarrow> unit completion \<times> 's LogCollector" where
  "publish this =
     (case call_isReady this of
        (Raises e, this1) \<Rightarrow> (Raises e, this1)
      | (Returns ready, this1) \<Rightarrow>
          (case (if ready then send_all this1
                 else (Returns (), this1\<lparr>outputCache := outputCache this1 @ [queue this1]\<rparr>)) of
             (Raises e, this2) \<Rightarrow> (Raises e, this2)
           | (Returns u, this2) \<Rightarrow> (Returns (), this2\<lparr>queue := [], totalLen := 0\<rparr>)))"

text \<open>\<^verbatim>\<open>_flush(force, reschedule)\<close>.\<close>

definition flush' :: "bool \<Rightarrow> bool \<Rightarrow> 's LogCollector \<Rightarrow> unit completion \<times> 's LogCollector" where
  "flush' force reschedule this =
     (case flush_condition force this of
        (Raises e, this1) \<Rightarrow> (Raises e, this1)
      | (Returns c, this1) \<Rightarrow>
          (case (if c then publish this1 else (Returns (), this1)) of
             (Raises e, this2) \<Rightarrow> (Raises e, this2)
           | (Returns u, this2) \<Rightarrow>
               (Returns (), if reschedule then reschedulePublishInterval this2 else this2)))"

text \<open>The public \<^verbatim>\<open>flush()\<close> and \<^verbatim>\<open>stop()\<close>.\<close>

definition flush :: "'s LogCollector \<Rightarrow> unit completion \<times> 's LogCollector" where
  "flush this = flush' False True this"

definition stop :: "'s LogCollector \<Rightarrow> unit completion \<times> 's LogCollector" where
  "stop this = flush' False False this"

subsection \<open>Logging\<close>

text \<open>
  The aggregation step of \<^verbatim>\<open>_log\<close> for a truthy message: the last entry of the queue is
  counted up when its text is the message, otherwise a new entry is pushed and the total
  length grows by the length of the message.
\<close>

definition aggregate :: "string \<Rightarrow> js_value \<Rightarrow> 's LogCollector \<Rightarrow> 's LogCollector" where
  "aggregate msg ts this =
     (if queue this \<noteq> [] \<and> entry_text (last (queue this)) = msg
      then this\<lparr>queue := butlast (queue this) @
                  [(last (queue this))\<lparr>count := count (last (queue this)) + 1\<rparr>]\<rparr>
      else this\<lparr>queue := queue this @ [\<lparr>entry_text = msg, timestamp = ts, count = 1\<rparr>],
                totalLen := totalLen this + length msg\<rparr>)"

text \<open>
  The first half of \<^verbatim>\<open>_log\<close>, up to the size check. \<^verbatim>\<open>args[0]\<close> is the bound log level;
  \<^verbatim>\<open>arguments\<close> are the arguments of the level method, the timestamp first
  (\<^verbatim>\<open>undefined\<close> when there is none).
\<close>

definition log_message :: "'s LogCollector \<Rightarrow> string \<Rightarrow> js_value list \<Rightarrow> string option" where
  "log_message this logLevel arguments =
     formatLogMessage this logLevel
       (case arguments of [] \<Rightarrow> JUndefined | ts # rest \<Rightarrow> ts) (drop 1 arguments)"

definition log_enqueue :: "string \<Rightarrow> js_value list \<Rightarrow> 's LogCollector \<Rightarrow> 's LogCollector" where
  "log_enqueue logLevel arguments this =
     (case log_message this logLevel arguments of
        None \<Rightarrow> this
      | Some msg \<Rightarrow>
          if msg \<noteq> []
          then aggregate msg (case arguments of [] \<Rightarrow> JUndefined | ts # rest \<Rightarrow> ts) this
          else this)"

text \<open>\<^verbatim>\<open>_log\<close>: aggregation, then the size check and the forced flush.\<close>

definition log' ::
  "string \<Rightarrow> js_value list \<Rightarrow> 's LogCollector \<Rightarrow> unit completion \<times> 's LogCollector" where
  "log' logLevel arguments this =
     (let this1 = log_enqueue logLevel arguments this
      in if int (totalLen this1) \<ge> maxEntryLength this1
         then flush' True True this1
         else (Returns (), this1))"

text \<open>
  A call of the level method \<open>methodName\<close> of the collector, as the logger makes it;
  \<open>None\<close> when the collector has no method of that name.
\<close>

definition invoke ::
  "string \<Rightarrow> js_value list \<Rightarrow> 's LogCollector \<Rightarrow> (unit completion \<times> 's LogCollector) option" where
  "invoke methodName arguments this =
     (case map_of level_methods methodName of
        None \<Rightarrow> None
      | Some logLevel \<Rightarrow> Some (log' logLevel arguments this))"

subsection \<open>The JavaScript variant of the flush\<close>

text \<open>
  \<^verbatim>\<open>LogCollector.prototype._storeLogs\<close> and \<^verbatim>\<open>LogCollector.prototype._flush\<close> of the
  JavaScript variant: both calls to the storage stand in \<^verbatim>\<open>try\<close> blocks whose handlers
  write to \<^verbatim>\<open>console.error\<close>, so neither function can throw and both return the state only.
\<close>

definition storeLogs_js :: "log_entry list \<Rightarrow> 's LogCollector \<Rightarrow> 's LogCollector" where
  "storeLogs_js logs this =
     (case call_storeLogs logs this of
        (Raises e, this1) \<Rightarrow>
          this1\<lparr>console_error := console_error this1 @
                   [''LogCollector error when calling logStorage.storeLogs(): '' @ e]\<rparr>
      | (Returns u, this1) \<Rightarrow> this1)"

definition isReady_js :: "'s LogCollector \<Rightarrow> bool \<times> 's LogCollector" where
  "isReady_js this =
     (case call_isReady this of
        (Raises e, this1) \<Rightarrow>
          (False,
           this1\<lparr>console_error := console_error this1 @
                    [''LogCollector error when calling logStorage.isReady(): '' @ e]\<rparr>)
      | (Returns ready, this1) \<Rightarrow> (ready, this1))"

definition flush_js :: "bool \<Rightarrow> bool \<Rightarrow> 's LogCollector \<Rightarrow> 's LogCollector" where
  "flush_js force reschedule this =
     (let (logStorageReady, this1) = isReady_js this;
          this2 =
            (if totalLen this1 > 0 \<and> (logStorageReady \<or> force)
             then (let this3 =
                         (if logStorageReady
                          then (let this4 =
                                      (if length (outputCache this1) \<noteq> 0
                                       then (fold storeLogs_js (outputCache this1) this1)
                                              \<lparr>outputCache := []\<rparr>
                                       else this1)
                                in storeLogs_js (queue this4) this4)
                          else this1\<lparr>outputCache := outputCache this1 @ [queue this1]\<rparr>)
                   in this3\<lparr>queue := [], totalLen := 0\<rparr>)
             else this1)
      in if reschedule then reschedulePublishInterval this2 else this2)"

section \<open>Vocabulary of the specification\<close>

text \<open>The state of a storage after it has been given a list of batches, one after the other.\<close>

definition stored :: "'s LogStorage \<Rightarrow> log_entry list list \<Rightarrow> 's \<Rightarrow> 's" where
  "stored ls batches s = fold (\<lambda>logs s1. snd (storeLogs ls logs s1)) batches s"

text \<open>The invariant of the data model: the total length is zero exactly when the queue is empty.\<close>

definition invariant :: "'s LogCollector \<Rightarrow> bool" where
  "invariant this = ((totalLen this = 0) = (queue this = []))"

text \<open>
  Two states agree on the configuration and on the timeouts: what the calls to the storage
  leave alone.
\<close>

definition same_timers :: "'s LogCollector \<Rightarrow> 's LogCollector \<Rightarrow> bool" where
  "same_timers this t =
     (storeInterval t = storeInterval this \<and> maxEntryLength t = maxEntryLength this \<and>
      storeLogsIntervalID t = storeLogsIntervalID this \<and> timeouts t = timeouts this \<and>
      nextTimeoutID t = nextTimeoutID this)"

text \<open>
  A sequence of submissions, each a bound log level with the arguments of the level
  method, made one after the other; an exception ends the sequence.
\<close>

fun log_all ::
  "(string \<times> js_value list) list \<Rightarrow> 's LogCollector \<Rightarrow> unit completion \<times> 's LogCollector" where
  "log_all [] this = (Returns (), this)"
| "log_all ((logLevel, arguments) # rest) this =
     (case log' logLevel arguments this of
        (Raises e, this1) \<Rightarrow> (Raises e, this1)
      | (Returns u, this1) \<Rightarrow> log_all rest this1)"

text \<open>The non-empty formatted texts of a sequence of submissions, in order.\<close>

definition submitted_texts :: "'s LogCollector \<Rightarrow> (string \<times> js_value list) list \<Rightarrow> string list" where
  "submitted_texts this subs =
     filter (\<lambda>msg. msg \<noteq> [])
       (List.map_filter (\<lambda>(logLevel, arguments). log_message this logLevel arguments) subs)"

text \<open>
  The run-length grouping of a list, written from the specification's words: every maximal
  run of equal consecutive elements is one pair of the element and the length of the run.
\<close>

function run_length :: "'a list \<Rightarrow> ('a \<times> nat) list" where
  "run_length [] = []"
| "run_length (x # xs) =
     (x, Suc (length (takeWhile (\<lambda>y. y = x) xs))) # run_length (dropWhile (\<lambda>y. y = x) xs)"
  by pat_completeness auto
termination
  by (relation "measure length") (auto simp: le_imp_less_Suc length_dropWhile_le)

text \<open>
  Appending one element to a run-length grouping: the last pair is counted up when it is of
  that element, otherwise a pair with count one is added.
\<close>

definition snoc_run :: "('a \<times> nat) list \<Rightarrow> 'a \<Rightarrow> ('a \<times> nat) list" where
  "snoc_run q x =
     (if q \<noteq> [] \<and> fst (last q) = x then butlast q @ [(x, Suc (snd (last q)))]
      else q @ [(x, 1)])"

text \<open>
  The length of the texts of a list of messages, every run counted once: the total length
  the specification gives the queue of these messages.
\<close>

definition texts_length :: "string list \<Rightarrow> nat" where
  "texts_length msgs = sum_list (map (\<lambda>p. length (fst p)) (run_length msgs))"

subsection \<open>Storages and collectors used as concrete inputs\<close>

text \<open>
  A storage whose state is its readiness and which accepts every batch; one whose
  \<^verbatim>\<open>isReady\<close> throws; one that reports ready and whose \<^verbatim>\<open>storeLogs\<close> throws.
\<close>

definition flag_storage :: "bool LogStorage" where
  "flag_storage = \<lparr> storeLogs = (\<lambda>logs s. (Returns (), s)), isReady = (\<lambda>s. (Returns s, s)) \<rparr>"

definition throwing_isReady :: "bool LogStorage" where
  "throwing_isReady =
     \<lparr> storeLogs = (\<lambda>logs s. (Returns (), s)),
       isReady = (\<lambda>s. (Raises ''storage is gone'', s)) \<rparr>"

definition throwing_storeLogs :: "bool LogStorage" where
  "throwing_storeLogs =
     \<lparr> storeLogs = (\<lambda>logs s. (Raises ''quota exceeded'', s)),
       isReady = (\<lambda>s. (Returns s, s)) \<rparr>"

text \<open>An object argument: the array \<^verbatim>\<open>[1, 2]\<close>.\<close>

definition array_1_2 :: js_value where
  "array_1_2 = JObj (JObject (Some ''[1,2]'') ''1,2'')"

text \<open>
  A collector with default options on a storage that is not ready, after
  \<^verbatim>\<open>log(undefined, 'hello')\<close>.
\<close>

definition collector_hello :: "bool LogStorage \<Rightarrow> bool \<Rightarrow> bool LogCollector" where
  "collector_hello ls ready =
     snd (log' ''LOG'' [JUndefined, JString ''hello''] (new_LogCollector ls None ready [] 1))"

text \<open>The same collector with two cached batches in front of its queue.\<close>

definition collector_cached :: "bool LogStorage \<Rightarrow> bool \<Rightarrow> bool LogCollector" where
  "collector_cached ls ready =
     (collector_hello ls ready)
       \<lparr>outputCache := [[\<lparr>entry_text = ''a'', timestamp = JUndefined, count = 1\<rparr>],
                        [\<lparr>entry_text = ''b'', timestamp = JUndefined, count = 2\<rparr>]]\<rparr>"

text \<open>A new collector with \<^verbatim>\<open>{maxEntryLength: 5}\<close>.\<close>

definition collector_max5 :: "bool LogStorage \<Rightarrow> bool \<Rightarrow> bool LogCollector" where
  "collector_max5 ls ready =
     new_LogCollector ls
       (Some \<lparr>opt_maxEntryLength = Some 5, opt_storeInterval = None, opt_stringifyObjects = None\<rparr>)
       ready [] 1"

text \<open>The submissions of the specification's examples.\<close>

definition hello_hello_world :: "(string \<times> js_value list) list" where
  "hello_hello_world =
     [(''LOG'', [JUndefined, JString ''hello'']), (''LOG'', [JUndefined, JString ''hello'']),
      (''LOG'', [JUndefined, JString ''world''])]"

definition a_b_a :: "(string \<times> js_value list) list" where
  "a_b_a =
     [(''LOG'', [JUndefined, JString ''A'']), (''LOG'', [JUndefined, JString ''B'']),
      (''LOG'', [JUndefined, JString ''A''])]"

lemmas collector_defs =
  new_LogCollector_def option_number_def option_boolean_def log'_def log_enqueue_def
  log_message_def formatLogMessage_def aggregate_def flush'_def flush_condition_def
  publish_def send_all_def call_isReady_def call_storeLogs_def reschedulePublishInterval_def
  setTimeout_def clearTimeout_def stringify_def Logger_levels_ERROR_def Logger_levels_def
  level_methods_def invoke_def stop_def flush_def start_def Let_def

lemmas input_defs =
  flag_storage_def throwing_isReady_def throwing_storeLogs_def array_1_2_def
  collector_hello_def collector_cached_def collector_max5_def hello_hello_world_def a_b_a_def

section \<open>The constructor's defaults\<close>

text \<open>
  Claim C10. An options object whose \<^verbatim>\<open>maxEntryLength\<close>, \<^verbatim>\<open>storeInterval\<close> or
  \<^verbatim>\<open>stringifyObjects\<close> is present and falsy (\<open>0\<close>, \<open>0\<close>, \<^verbatim>\<open>false\<close>) configures the collector
  exactly as the options object without that field does, and that configuration is the
  default \<open>10000\<close>, \<open>30000\<close>, \<^verbatim>\<open>false\<close>; no options at all make the threshold or the interval
  zero.
\<close>

theorem falsy_options_are_defaults:
  "new_LogCollector ls (Some (opts\<lparr>opt_maxEntryLength := Some 0\<rparr>)) s pending next_id =
     new_LogCollector ls (Some (opts\<lparr>opt_maxEntryLength := None\<rparr>)) s pending next_id
   \<and> maxEntryLength
       (new_LogCollector ls (Some (opts\<lparr>opt_maxEntryLength := None\<rparr>)) s pending next_id) = 10000
   \<and> new_LogCollector ls (Some (opts\<lparr>opt_storeInterval := Some 0\<rparr>)) s pending next_id =
     new_LogCollector ls (Some (opts\<lparr>opt_storeInterval := None\<rparr>)) s pending next_id
   \<and> storeInterval
       (new_LogCollector ls (Some (opts\<lparr>opt_storeInterval := None\<rparr>)) s pending next_id) = 30000
   \<and> new_LogCollector ls (Some (opts\<lparr>opt_stringifyObjects := Some False\<rparr>)) s pending next_id =
     new_LogCollector ls (Some (opts\<lparr>opt_stringifyObjects := None\<rparr>)) s pending next_id
   \<and> stringifyObjects
       (new_LogCollector ls (Some (opts\<lparr>opt_stringifyObjects := None\<rparr>)) s pending next_id) = False
   \<and> maxEntryLength (new_LogCollector ls options s pending next_id) \<noteq> 0
   \<and> storeInterval (new_LogCollector ls options s pending next_id) \<noteq> 0"
  by (simp add: new_LogCollector_def option_number_def option_boolean_def split: option.splits)

section \<open>Calls to the storage\<close>

lemma call_isReady_eq:
  "isReady (logStorage this) (storage this) = (r, s) \<Longrightarrow>
   call_isReady this = (r, this\<lparr>storage := s, calls := calls this @ [IsReady]\<rparr>)"
  by (simp add: call_isReady_def)

lemma call_storeLogs_eq:
  "storeLogs (logStorage this) logs (storage this) = (r, s) \<Longrightarrow>
   call_storeLogs logs this = (r, this\<lparr>storage := s, calls := calls this @ [StoreLogs logs]\<rparr>)"
  by (simp add: call_storeLogs_def)

lemma call_isReady_fields:
  "call_isReady this = (r, t) \<Longrightarrow>
   queue t = queue this \<and> totalLen t = totalLen this \<and> outputCache t = outputCache this"
  by (auto simp: call_isReady_def split: prod.splits)

lemma call_storeLogs_fields:
  "call_storeLogs l this = (r, t) \<Longrightarrow>
   queue t = queue this \<and> totalLen t = totalLen this \<and> outputCache t = outputCache this"
  by (auto simp: call_storeLogs_def split: prod.splits)

lemma forEach_storeLogs_fields:
  "forEach_storeLogs cs this = (r, t) \<Longrightarrow>
   queue t = queue this \<and> totalLen t = totalLen this \<and> outputCache t = outputCache this"
proof (induction cs arbitrary: this)
  case Nil
  then show ?case by simp
next
  case (Cons c cs)
  obtain r1 t1 where c: "call_storeLogs c this = (r1, t1)"
    by (cases "call_storeLogs c this")
  show ?case
  proof (cases r1)
    case (Returns u)
    with Cons.prems c have "forEach_storeLogs cs t1 = (r, t)" by simp
    from Cons.IH[OF this] call_storeLogs_fields[OF c] show ?thesis by simp
  next
    case (Raises e)
    with Cons.prems c have "t = t1" by simp
    with call_storeLogs_fields[OF c] show ?thesis by simp
  qed
qed

text \<open>A storage whose \<^verbatim>\<open>storeLogs\<close> never throws is given every cached batch, in order.\<close>

lemma forEach_storeLogs_returns:
  assumes "\<And>logs s. fst (storeLogs (logStorage this) logs s) = Returns ()"
  shows "forEach_storeLogs cs this =
           (Returns (), this\<lparr>storage := stored (logStorage this) cs (storage this),
                              calls := calls this @ map StoreLogs cs\<rparr>)"
  using assms
proof (induction cs arbitrary: this)
  case Nil
  show ?case by (simp add: stored_def)
next
  case (Cons c cs)
  obtain s1 where s1: "storeLogs (logStorage this) c (storage this) = (Returns (), s1)"
    using Cons.prems[of c "storage this"]
    by (cases "storeLogs (logStorage this) c (storage this)") auto
  let ?t = "this\<lparr>storage := s1, calls := calls this @ [StoreLogs c]\<rparr>"
  have "forEach_storeLogs cs ?t =
          (Returns (), ?t\<lparr>storage := stored (logStorage ?t) cs (storage ?t),
                              calls := calls ?t @ map StoreLogs cs\<rparr>)"
    by (rule Cons.IH) (simp add: Cons.prems)
  then show ?case
    by (simp add: call_storeLogs_eq[OF s1] stored_def s1)
qed

lemma send_all_returns:
  assumes "\<And>logs s. fst (storeLogs (logStorage this) logs s) = Returns ()"
  shows "send_all this =
     (Returns (),
      this\<lparr>storage := stored (logStorage this) (outputCache this @ [queue this]) (storage this),
            calls := calls this @ map StoreLogs (outputCache this) @ [StoreLogs (queue this)],
            outputCache := []\<rparr>)"
proof -
  let ?s = "stored (logStorage this) (outputCache this) (storage this)"
  let ?t = "this\<lparr>storage := ?s, calls := calls this @ map StoreLogs (outputCache this),
                  outputCache := []\<rparr>"
  obtain s1 where s1: "storeLogs (logStorage this) (queue this) ?s = (Returns (), s1)"
    using assms[of "queue this" ?s]
    by (cases "storeLogs (logStorage this) (queue this) ?s") auto
  have q: "call_storeLogs (queue ?t) ?t =
             (Returns (), ?t\<lparr>storage := s1, calls := calls ?t @ [StoreLogs (queue ?t)]\<rparr>)"
    by (rule call_storeLogs_eq) (simp add: s1)
  have s1': "s1 = stored (logStorage this) (outputCache this @ [queue this]) (storage this)"
    using s1 by (simp add: stored_def)
  show ?thesis
  proof (cases "outputCache this = []")
    case True
    have "storeLogs (logStorage this) (queue this) (storage this) = (Returns (), s1)"
      using s1 True by (simp add: stored_def)
    then show ?thesis using True
      by (cases this) (simp add: send_all_def call_storeLogs_def stored_def)
  next
    case False
    then show ?thesis using q
      by (simp add: send_all_def forEach_storeLogs_returns[OF assms] s1'[symmetric])
  qed
qed

section \<open>What a flush does\<close>

lemma reschedulePublishInterval_fields [simp]:
  "queue (reschedulePublishInterval this) = queue this"
  "totalLen (reschedulePublishInterval this) = totalLen this"
  "outputCache (reschedulePublishInterval this) = outputCache this"
  "calls (reschedulePublishInterval this) = calls this"
  "storage (reschedulePublishInterval this) = storage this"
  "storeLogsIntervalID (reschedulePublishInterval this) = Some (nextTimeoutID this)"
  by (simp_all add: reschedulePublishInterval_def setTimeout_def clearTimeout_def Let_def
      split: option.splits prod.splits)



lemma flush'_isReady_raises:
  "0 < totalLen this \<Longrightarrow> isReady (logStorage this) (storage this) = (Raises e, s1) \<Longrightarrow>
   flush' force reschedule this =
     (Raises e, this\<lparr>storage := s1, calls := calls this @ [IsReady]\<rparr>)"
  by (simp add: flush'_def flush_condition_def call_isReady_eq)

lemma flush'_not_ready:
  "0 < totalLen this \<Longrightarrow> isReady (logStorage this) (storage this) = (Returns False, s1) \<Longrightarrow>
   flush' False reschedule this =
     (Returns (),
      if reschedule
      then reschedulePublishInterval (this\<lparr>storage := s1, calls := calls this @ [IsReady]\<rparr>)
      else this\<lparr>storage := s1, calls := calls this @ [IsReady]\<rparr>)"
  by (simp add: flush'_def flush_condition_def call_isReady_eq)

lemma flush'_forced_not_ready:
  "0 < totalLen this \<Longrightarrow> isReady (logStorage this) (storage this) = (Returns False, s1) \<Longrightarrow>
   isReady (logStorage this) s1 = (Returns False, s2) \<Longrightarrow>
   flush' True reschedule this =
     (Returns (),
      if reschedule
      then reschedulePublishInterval
             (this\<lparr>storage := s2, calls := calls this @ [IsReady, IsReady],
                   outputCache := outputCache this @ [queue this], queue := [], totalLen := 0\<rparr>)
      else this\<lparr>storage := s2, calls := calls this @ [IsReady, IsReady],
                 outputCache := outputCache this @ [queue this], queue := [], totalLen := 0\<rparr>)"
  by (simp add: flush'_def flush_condition_def publish_def call_isReady_eq)

lemma flush'_ready:
  assumes "0 < totalLen this"
    and "isReady (logStorage this) (storage this) = (Returns ready, s1)" and "ready \<or> force"
    and "isReady (logStorage this) s1 = (Returns True, s2)"
    and "\<And>logs s. fst (storeLogs (logStorage this) logs s) = Returns ()"
  shows "flush' force reschedule this =
     (Returns (),
      (if reschedule then reschedulePublishInterval else (\<lambda>t. t))
        (this\<lparr>storage := stored (logStorage this) (outputCache this @ [queue this]) s2,
              calls := calls this @ [IsReady, IsReady] @ map StoreLogs (outputCache this) @
                       [StoreLogs (queue this)],
              outputCache := [], queue := [], totalLen := 0\<rparr>))"
proof -
  let ?t1 = "this\<lparr>storage := s1, calls := calls this @ [IsReady]\<rparr>"
  let ?t2 = "this\<lparr>storage := s2, calls := calls this @ [IsReady, IsReady]\<rparr>"
  have c: "flush_condition force this = (Returns True, ?t1)"
    using assms(1,2,3) by (simp add: flush_condition_def call_isReady_eq)
  have r2: "call_isReady ?t1 = (Returns True, ?t2)"
    using call_isReady_eq[of ?t1 "Returns True" s2] assms(4) by simp
  have sa: "send_all ?t2 =
     (Returns (),
      ?t2\<lparr>storage := stored (logStorage ?t2) (outputCache ?t2 @ [queue ?t2]) (storage ?t2),
           calls := calls ?t2 @ map StoreLogs (outputCache ?t2) @ [StoreLogs (queue ?t2)],
           outputCache := []\<rparr>)"
    by (rule send_all_returns) (simp add: assms(5))
  show ?thesis
    by (simp add: flush'_def c publish_def r2 sa)
qed

section \<open>The invariant of the queue\<close>

lemma invariant_new_LogCollector:
  "invariant (new_LogCollector ls options s pending next_id)"
  by (simp add: invariant_def new_LogCollector_def)

lemma invariant_reschedulePublishInterval [simp]:
  "invariant (reschedulePublishInterval this) = invariant this"
  by (simp add: invariant_def)

lemma invariant_call_isReady:
  "invariant this \<Longrightarrow> call_isReady this = (r, t) \<Longrightarrow> invariant t"
  by (auto simp: invariant_def dest!: call_isReady_fields)

lemma invariant_flush_condition:
  "invariant this \<Longrightarrow> flush_condition force this = (r, t) \<Longrightarrow> invariant t"
  by (auto simp: flush_condition_def split: prod.splits completion.splits if_splits
      dest: invariant_call_isReady)

lemma invariant_publish:
  "invariant this \<Longrightarrow> publish this = (r, t) \<Longrightarrow> invariant t"
  by (auto simp: publish_def send_all_def invariant_def
      split: prod.splits completion.splits if_splits
      dest!: forEach_storeLogs_fields call_storeLogs_fields call_isReady_fields)

lemma invariant_flush':
  "invariant this \<Longrightarrow> flush' force reschedule this = (r, t) \<Longrightarrow> invariant t"
  by (auto simp: flush'_def split: prod.splits completion.splits if_splits)
     (blast dest: invariant_flush_condition invariant_publish)+

lemma invariant_aggregate:
  "invariant this \<Longrightarrow> msg \<noteq> [] \<Longrightarrow> invariant (aggregate msg ts this)"
  by (auto simp: invariant_def aggregate_def)

lemma invariant_log_enqueue:
  "invariant this \<Longrightarrow> invariant (log_enqueue logLevel arguments this)"
  by (auto simp: log_enqueue_def invariant_aggregate split: option.splits)

lemma invariant_log':
  "invariant this \<Longrightarrow> log' logLevel arguments this = (r, t) \<Longrightarrow> invariant t"
  by (auto simp: log'_def Let_def split: if_splits dest: invariant_flush' invariant_log_enqueue)

text \<open>
  Claim C9. The total length is zero exactly when the queue is empty: in the collector the
  constructor returns, and after \<^verbatim>\<open>_log\<close> for any level and arguments, after any level
  method, after \<^verbatim>\<open>_flush\<close> with either value of \<^verbatim>\<open>force\<close> and \<^verbatim>\<open>reschedule\<close> and whatever
  the storage answers or throws, after \<^verbatim>\<open>flush()\<close>, \<^verbatim>\<open>stop()\<close> and \<^verbatim>\<open>start()\<close>, whenever it
  held before.
\<close>

theorem totalLen_zero_iff_queue_empty:
  "invariant (new_LogCollector ls options s pending next_id)
   \<and> (invariant this \<longrightarrow> invariant (snd (log' logLevel arguments this)))
   \<and> (invariant this \<longrightarrow>
        (\<forall>r. invoke methodName arguments this = Some r \<longrightarrow> invariant (snd r)))
   \<and> (invariant this \<longrightarrow> invariant (snd (flush' force reschedule this)))
   \<and> (invariant this \<longrightarrow> invariant (snd (flush this)))
   \<and> (invariant this \<longrightarrow> invariant (snd (stop this)))
   \<and> (invariant this \<longrightarrow> invariant (start this))"
proof -
  have l: "invariant this \<Longrightarrow> invariant (snd (log' l a this))" for l a
    using invariant_log'[of this l a] by (cases "log' l a this") simp
  have f: "invariant this \<Longrightarrow> invariant (snd (flush' b c this))" for b c
    using invariant_flush'[of this b c] by (cases "flush' b c this") simp
  show ?thesis
    using l f
    by (auto simp: invariant_new_LogCollector invoke_def flush_def stop_def start_def
        split: option.splits dest: invariant_log')
qed

theorem totalLen_zero_iff_queue_empty_witness:
  "invariant (new_LogCollector flag_storage None False [] 1)
   \<and> queue (snd (log' ''LOG'' [JUndefined, JString ''hello'']
                  (new_LogCollector flag_storage None False [] 1))) \<noteq> []
   \<and> invariant (snd (log' ''LOG'' [JUndefined, JString ''hello'']
                      (new_LogCollector flag_storage None False [] 1)))
   \<and> invariant (snd (flush' True True (collector_hello flag_storage False)))
   \<and> queue (snd (flush' True True (collector_hello flag_storage False))) = []
   \<and> invariant (snd (stop (collector_hello flag_storage False)))
   \<and> queue (snd (stop (collector_hello flag_storage False))) \<noteq> []"
proof -
  let ?c = "new_LogCollector flag_storage None False [] 1"
  let ?h = "collector_hello flag_storage False"
  note new = totalLen_zero_iff_queue_empty[where ls = flag_storage and options = None
      and s = False and pending = "[]" and next_id = 1 and this = ?c and logLevel = "''LOG''"
      and arguments = "[JUndefined, JString ''hello'']"]
  note hello = totalLen_zero_iff_queue_empty[where ls = flag_storage and options = None
      and s = False and pending = "[]" and next_id = 1 and this = ?h and force = True
      and reschedule = True]
  have i0: "invariant ?c"
    using new by blast
  have i1: "invariant (snd (log' ''LOG'' [JUndefined, JString ''hello''] ?c))"
    using new i0 by blast
  then have i2: "invariant ?h"
    by (simp only: collector_hello_def)
  have i3: "invariant (snd (flush' True True ?h))"
    using hello i2 by blast
  have i4: "invariant (snd (stop ?h))"
    using hello i2 by blast
  have q1: "queue (snd (log' ''LOG'' [JUndefined, JString ''hello''] ?c)) \<noteq> []"
    by (simp add: collector_defs input_defs)
  have q2: "queue (snd (flush' True True ?h)) = []"
    by (simp add: collector_defs input_defs)
  have q3: "queue (snd (stop ?h)) \<noteq> []"
    by (simp add: collector_defs input_defs)
  show ?thesis using i0 i1 i3 i4 q1 q2 q3 by blast
qed

section \<open>Flushes on a storage that is not ready\<close>

text \<open>
  Claim C8. A forced flush of a non-empty queue while the storage answers that it is not
  ready (to both \<^verbatim>\<open>isReady()\<close> calls of \<^verbatim>\<open>_flush\<close>) returns, makes no \<^verbatim>\<open>storeLogs\<close> call,
  appends the queue as it is as one new last batch of the output cache, and leaves the queue
  empty and the total length zero.
\<close>

theorem forced_flush_not_ready_caches_queue:
  assumes "queue this \<noteq> []" and "invariant this"
    and "isReady (logStorage this) (storage this) = (Returns False, s1)"
    and "isReady (logStorage this) s1 = (Returns False, s2)"
  shows "\<exists>t. flush' True reschedule this = (Returns (), t)
           \<and> calls t = calls this @ [IsReady, IsReady]
           \<and> outputCache t = outputCache this @ [queue this]
           \<and> queue t = [] \<and> totalLen t = 0"
proof -
  have "0 < totalLen this"
    using assms(1,2) by (simp add: invariant_def)
  from flush'_forced_not_ready[OF this assms(3,4), of reschedule]
  show ?thesis by (cases reschedule) simp_all
qed

theorem forced_flush_not_ready_caches_queue_witness:
  "queue (collector_cached flag_storage False) \<noteq> []
   \<and> length (outputCache (collector_cached flag_storage False)) = 2
   \<and> (\<exists>t. flush' True True (collector_cached flag_storage False) = (Returns (), t)
           \<and> calls t = calls (collector_cached flag_storage False) @ [IsReady, IsReady]
           \<and> outputCache t =
               outputCache (collector_cached flag_storage False) @
               [queue (collector_cached flag_storage False)]
           \<and> queue t = [] \<and> totalLen t = 0)"
proof -
  let ?c = "collector_cached flag_storage False"
  have q: "queue ?c \<noteq> []" and i: "invariant ?c"
    and n: "length (outputCache ?c) = 2"
    by (simp_all add: invariant_def collector_defs input_defs)
  have r1: "isReady (logStorage ?c) (storage ?c) = (Returns False, False)"
    and r2: "isReady (logStorage ?c) False = (Returns False, False)"
    by (simp_all add: collector_defs input_defs)
  from forced_flush_not_ready_caches_queue[OF q i r1 r2, of True] q n
  show ?thesis by blast
qed

text \<open>
  Claim C4, as the code has it. \<^verbatim>\<open>stop()\<close> is one \<^verbatim>\<open>_flush(false, false)\<close>. When the queue
  is not empty and the storage answers that it is not ready, that flush asks the storage
  once and changes nothing else: the batch stays in the queue, the output cache and the
  total length are as before, nothing is sent and no timeout is set.
\<close>

theorem stop_not_ready_keeps_queue:
  "stop this = flush' False False this
   \<and> (queue this \<noteq> [] \<longrightarrow> invariant this \<longrightarrow>
        isReady (logStorage this) (storage this) = (Returns False, s1) \<longrightarrow>
        stop this = (Returns (), this\<lparr>storage := s1, calls := calls this @ [IsReady]\<rparr>))"
proof -
  have "stop this = (Returns (), this\<lparr>storage := s1, calls := calls this @ [IsReady]\<rparr>)"
    if "queue this \<noteq> []" and "invariant this"
      and r: "isReady (logStorage this) (storage this) = (Returns False, s1)"
  proof -
    have "0 < totalLen this"
      using that(1,2) by (simp add: invariant_def)
    from flush'_not_ready[OF this r, of False] show ?thesis
      by (simp add: stop_def)
  qed
  then show ?thesis by (simp add: stop_def)
qed

theorem stop_not_ready_keeps_queue_witness:
  "queue (collector_hello flag_storage False) \<noteq> []
   \<and> stop (collector_hello flag_storage False) =
       (Returns (),
        (collector_hello flag_storage False)
          \<lparr>storage := False, calls := calls (collector_hello flag_storage False) @ [IsReady]\<rparr>)"
proof -
  let ?c = "collector_hello flag_storage False"
  have q: "queue ?c \<noteq> []" and i: "invariant ?c"
    by (simp_all add: invariant_def collector_defs input_defs)
  have r: "isReady (logStorage ?c) (storage ?c) = (Returns False, False)"
    by (simp add: collector_defs input_defs)
  from stop_not_ready_keeps_queue[of ?c False] q i r show ?thesis by blast
qed

text \<open>
  The claim as stated fails: after \<^verbatim>\<open>log(undefined, 'hello')\<close> on a storage that is not
  ready, \<^verbatim>\<open>stop()\<close> leaves the output cache empty and the batch in the queue.
\<close>

theorem stop_not_ready_does_not_cache:
  "queue (collector_hello flag_storage False) =
     [\<lparr>entry_text = ''hello'', timestamp = JUndefined, count = 1\<rparr>]
   \<and> isReady flag_storage (storage (collector_hello flag_storage False)) = (Returns False, False)
   \<and> outputCache (snd (stop (collector_hello flag_storage False))) \<noteq>
       outputCache (collector_hello flag_storage False) @
       [queue (collector_hello flag_storage False)]
   \<and> outputCache (snd (stop (collector_hello flag_storage False))) = []
   \<and> queue (snd (stop (collector_hello flag_storage False))) =
       queue (collector_hello flag_storage False)"
  by (simp add: collector_defs input_defs)

section \<open>Flushes on a storage that is ready\<close>

text \<open>
  On a storage that answers ready to both \<^verbatim>\<open>isReady()\<close> calls of \<^verbatim>\<open>_flush\<close> and whose
  \<^verbatim>\<open>storeLogs\<close> returns whatever it is given, a flush of a non-empty queue, forced or not,
  makes the two readiness checks, then one \<^verbatim>\<open>storeLogs\<close> call for every batch of the output
  cache in the order of the cache, then one for the queue; afterwards the output cache is
  empty, and so is the queue.
\<close>

lemma accepting_storage_flush_sends_cache_then_queue:
  assumes "queue this \<noteq> []" and "invariant this"
    and "isReady (logStorage this) (storage this) = (Returns True, s1)"
    and "isReady (logStorage this) s1 = (Returns True, s2)"
    and "\<forall>logs s. fst (storeLogs (logStorage this) logs s) = Returns ()"
  shows "\<exists>t. flush' force reschedule this = (Returns (), t)
           \<and> calls t = calls this @ [IsReady, IsReady] @ map StoreLogs (outputCache this) @
                         [StoreLogs (queue this)]
           \<and> outputCache t = [] \<and> queue t = [] \<and> totalLen t = 0"
proof -
  have "0 < totalLen this"
    using assms(1,2) by (simp add: invariant_def)
  from flush'_ready[OF this assms(3) _ assms(4), of force reschedule] assms(5)
  show ?thesis by (cases reschedule) simp_all
qed

lemma accepting_storage_flush_example:
  "queue (collector_cached flag_storage True) \<noteq> []
   \<and> (\<exists>t. flush' False True (collector_cached flag_storage True) = (Returns (), t)
           \<and> calls t =
               [IsReady, IsReady,
                StoreLogs [\<lparr>entry_text = ''a'', timestamp = JUndefined, count = 1\<rparr>],
                StoreLogs [\<lparr>entry_text = ''b'', timestamp = JUndefined, count = 2\<rparr>],
                StoreLogs [\<lparr>entry_text = ''hello'', timestamp = JUndefined, count = 1\<rparr>]]
           \<and> outputCache t = [] \<and> queue t = [] \<and> totalLen t = 0)"
proof -
  let ?c = "collector_cached flag_storage True"
  have q: "queue ?c \<noteq> []" and i: "invariant ?c"
    by (simp_all add: invariant_def collector_defs input_defs)
  have r1: "isReady (logStorage ?c) (storage ?c) = (Returns True, True)"
    and r2: "isReady (logStorage ?c) True = (Returns True, True)"
    and st: "\<forall>logs s. fst (storeLogs (logStorage ?c) logs s) = Returns ()"
    by (simp_all add: collector_defs input_defs)
  have c: "calls ?c @ [IsReady, IsReady] @ map StoreLogs (outputCache ?c) @ [StoreLogs (queue ?c)] =
      [IsReady, IsReady,
       StoreLogs [\<lparr>entry_text = ''a'', timestamp = JUndefined, count = 1\<rparr>],
       StoreLogs [\<lparr>entry_text = ''b'', timestamp = JUndefined, count = 2\<rparr>],
       StoreLogs [\<lparr>entry_text = ''hello'', timestamp = JUndefined, count = 1\<rparr>]]"
    by (simp add: collector_defs input_defs)
  from accepting_storage_flush_sends_cache_then_queue[OF q i r1 r2 st, of False True] q
  show ?thesis unfolding c by blast
qed

text \<open>
  Claim C7, on the code: the storage reports ready at both \<^verbatim>\<open>isReady()\<close> calls, the queue
  holds one message and the output cache two batches, and \<^verbatim>\<open>storeLogs\<close> throws. The flush,
  here forced, ends with the exception of the first \<^verbatim>\<open>storeLogs\<close> call: the second cached
  batch and the queue are never handed to the storage, and afterwards the output cache still
  holds both batches and the queue its message.
\<close>

theorem ready_flush_stops_at_throwing_storeLogs:
  "queue (collector_cached throwing_storeLogs True) =
     [\<lparr>entry_text = ''hello'', timestamp = JUndefined, count = 1\<rparr>]
   \<and> outputCache (collector_cached throwing_storeLogs True) =
       [[\<lparr>entry_text = ''a'', timestamp = JUndefined, count = 1\<rparr>],
        [\<lparr>entry_text = ''b'', timestamp = JUndefined, count = 2\<rparr>]]
   \<and> isReady throwing_storeLogs (storage (collector_cached throwing_storeLogs True)) =
       (Returns True, True)
   \<and> fst (flush' True False (collector_cached throwing_storeLogs True)) =
       Raises ''quota exceeded''
   \<and> calls (snd (flush' True False (collector_cached throwing_storeLogs True))) =
       [IsReady, IsReady, StoreLogs [\<lparr>entry_text = ''a'', timestamp = JUndefined, count = 1\<rparr>]]
   \<and> outputCache (snd (flush' True False (collector_cached throwing_storeLogs True))) =
       [[\<lparr>entry_text = ''a'', timestamp = JUndefined, count = 1\<rparr>],
        [\<lparr>entry_text = ''b'', timestamp = JUndefined, count = 2\<rparr>]]
   \<and> queue (snd (flush' True False (collector_cached throwing_storeLogs True))) =
       [\<lparr>entry_text = ''hello'', timestamp = JUndefined, count = 1\<rparr>]"
  by (simp add: collector_defs input_defs)

section \<open>The size check of a submission\<close>

lemma same_timers_refl [simp]: "same_timers this this"
  by (simp add: same_timers_def)











section \<open>Objects in a formatted message\<close>

text \<open>
  No level method binds the level \<^verbatim>\<open>Logger.levels.ERROR\<close>: the constructor binds the keys of
  \<^verbatim>\<open>Logger.levels\<close>, which are upper case, and \<^verbatim>\<open>formatLogMessage\<close> compares with the value
  \<^verbatim>\<open>'error'\<close>. Through a level method an object is stringified exactly when
  \<^verbatim>\<open>stringifyObjects\<close> is set.
\<close>

lemma level_methods_bound:
  "map_of level_methods methodName = Some logLevel \<Longrightarrow> logLevel \<noteq> Logger_levels_ERROR"
  by (auto simp: level_methods_def Logger_levels_def Logger_levels_ERROR_def split: if_splits)

lemma level_method_object:
  assumes "map_of level_methods methodName = Some logLevel"
  shows "processArg (stringifyObjects this) logLevel parts (JObj ob) =
           parts @ [if stringifyObjects this then JString (stringify ob) else JObj ob]"
  using level_methods_bound[OF assms] by simp

text \<open>
  Claim C1, on the code: with \<^verbatim>\<open>stringifyObjects\<close> off, \<^verbatim>\<open>error('t', [1, 2])\<close> reaches
  \<^verbatim>\<open>_log\<close> with the level \<^verbatim>\<open>'ERROR'\<close> and queues the text \<^verbatim>\<open>t,1,2\<close>, the default coercion
  of the array, while \<^verbatim>\<open>formatLogMessage\<close> called with the level \<^verbatim>\<open>'error'\<close> gives
  \<^verbatim>\<open>t,[1,2]\<close>, the JSON text the claim states.
\<close>

theorem error_method_does_not_stringify:
  "map_of level_methods ''error'' = Some ''ERROR''
   \<and> stringifyObjects (new_LogCollector flag_storage None False [] 1) = False
   \<and> invoke ''error'' [JString ''t'', array_1_2] (new_LogCollector flag_storage None False [] 1) =
       Some (Returns (),
             (new_LogCollector flag_storage None False [] 1)
               \<lparr>queue := [\<lparr>entry_text = ''t,1,2'', timestamp = JString ''t'', count = 1\<rparr>],
                totalLen := 5\<rparr>)
   \<and> formatLogMessage (new_LogCollector flag_storage None False [] 1) Logger_levels_ERROR
       (JString ''t'') [array_1_2] = Some ''t,[1,2]''"
  by (simp add: collector_defs input_defs)

section \<open>A storage that throws\<close>

text \<open>
  Claim C2, on the code: with a message in the queue and a storage whose \<^verbatim>\<open>isReady()\<close>
  throws, \<^verbatim>\<open>_flush(false, true)\<close> ends with that exception; nothing is written to the
  console and no timeout is set, although \<^verbatim>\<open>reschedule\<close> was asked for.
\<close>

theorem isReady_exception_leaves_flush:
  "queue (collector_hello throwing_isReady False) \<noteq> []
   \<and> isReady throwing_isReady False = (Raises ''storage is gone'', False)
   \<and> flush' False True (collector_hello throwing_isReady False) =
       (Raises ''storage is gone'', (collector_hello throwing_isReady False)\<lparr>calls := [IsReady]\<rparr>)
   \<and> storeLogsIntervalID (snd (flush' False True (collector_hello throwing_isReady False))) = None
   \<and> timeouts (snd (flush' False True (collector_hello throwing_isReady False))) = []"
  by (simp add: collector_defs input_defs)

text \<open>
  The JavaScript variant of \<^verbatim>\<open>_flush\<close> does what the claim states: the exception is
  written to the console, the storage counts as not ready and the flush goes on to the end.
\<close>

lemma flush_js_isReady_raises:
  assumes "isReady (logStorage this) (storage this) = (Raises e, s1)"
  shows "flush_js force reschedule this =
     (if reschedule then reschedulePublishInterval else (\<lambda>t. t))
       ((if 0 < totalLen this \<and> force
         then (\<lambda>t. t\<lparr>outputCache := outputCache this @ [queue this], queue := [], totalLen := 0\<rparr>)
         else (\<lambda>t. t))
          (this\<lparr>storage := s1, calls := calls this @ [IsReady],
                console_error := console_error this @
                  [''LogCollector error when calling logStorage.isReady(): '' @ e]\<rparr>))"
  by (simp add: flush_js_def isReady_js_def call_isReady_eq[OF assms])

text \<open>
  Claim C3, on the code: with two cached batches, a message in the queue and a storage that
  reports ready and whose \<^verbatim>\<open>storeLogs\<close> throws, \<^verbatim>\<open>flush()\<close> ends with the exception of the
  first \<^verbatim>\<open>storeLogs\<close> call; the second batch and the queue are not attempted, both batches
  stay in the output cache, and the next \<^verbatim>\<open>flush()\<close> sends the first batch again.
\<close>

theorem storeLogs_exception_leaves_flush:
  "isReady throwing_storeLogs True = (Returns True, True)
   \<and> storeLogs throwing_storeLogs [\<lparr>entry_text = ''a'', timestamp = JUndefined, count = 1\<rparr>] True =
       (Raises ''quota exceeded'', True)
   \<and> flush (collector_cached throwing_storeLogs True) =
       (Raises ''quota exceeded'',
        (collector_cached throwing_storeLogs True)
          \<lparr>calls := [IsReady, IsReady,
                     StoreLogs [\<lparr>entry_text = ''a'', timestamp = JUndefined, count = 1\<rparr>]]\<rparr>)
   \<and> outputCache (snd (flush (collector_cached throwing_storeLogs True))) =
       [[\<lparr>entry_text = ''a'', timestamp = JUndefined, count = 1\<rparr>],
        [\<lparr>entry_text = ''b'', timestamp = JUndefined, count = 2\<rparr>]]
   \<and> calls (snd (flush (snd (flush (collector_cached throwing_storeLogs True))))) =
       [IsReady, IsReady, StoreLogs [\<lparr>entry_text = ''a'', timestamp = JUndefined, count = 1\<rparr>],
        IsReady, IsReady, StoreLogs [\<lparr>entry_text = ''a'', timestamp = JUndefined, count = 1\<rparr>]]"
  by (simp add: collector_defs input_defs)

text \<open>
  In general: when the storage is ready and throws at the first cached batch, the flush ends
  with that exception and leaves the output cache, the queue and the timeouts as they were.
\<close>

lemma flush'_storeLogs_raises:
  assumes "0 < totalLen this"
    and "isReady (logStorage this) (storage this) = (Returns True, s1)"
    and "isReady (logStorage this) s1 = (Returns True, s2)"
    and "outputCache this = c # cs"
    and "storeLogs (logStorage this) c s2 = (Raises e, s3)"
  shows "flush' force reschedule this =
           (Raises e, this\<lparr>storage := s3, calls := calls this @ [IsReady, IsReady, StoreLogs c]\<rparr>)"
proof -
  let ?t1 = "this\<lparr>storage := s1, calls := calls this @ [IsReady]\<rparr>"
  let ?t2 = "this\<lparr>storage := s2, calls := calls this @ [IsReady, IsReady]\<rparr>"
  have c: "flush_condition force this = (Returns True, ?t1)"
    using assms(1,2) by (simp add: flush_condition_def call_isReady_eq)
  have r2: "call_isReady ?t1 = (Returns True, ?t2)"
    using call_isReady_eq[of ?t1 "Returns True" s2] assms(3) by simp
  have st: "call_storeLogs c ?t2 =
      (Raises e, ?t2\<lparr>storage := s3, calls := calls ?t2 @ [StoreLogs c]\<rparr>)"
    by (rule call_storeLogs_eq) (simp add: assms(5))
  have "send_all ?t2 = (Raises e, ?t2\<lparr>storage := s3, calls := calls ?t2 @ [StoreLogs c]\<rparr>)"
    by (simp add: send_all_def assms(4) st)
  then show ?thesis
    by (simp add: flush'_def c publish_def r2)
qed

text \<open>
  The JavaScript variant sends through \<^verbatim>\<open>_storeLogs\<close>, which catches: whatever the storage
  does, a flush on a ready storage makes one \<^verbatim>\<open>storeLogs\<close> call for every cached batch in
  order and one for the queue, and empties cache and queue.
\<close>

lemma storeLogs_js_fields:
  "calls (storeLogs_js logs this) = calls this @ [StoreLogs logs] \<and>
   queue (storeLogs_js logs this) = queue this \<and>
   totalLen (storeLogs_js logs this) = totalLen this \<and>
   outputCache (storeLogs_js logs this) = outputCache this"
  by (simp add: storeLogs_js_def call_storeLogs_def split: prod.splits completion.splits)

lemma fold_storeLogs_js_fields:
  "calls (fold storeLogs_js cs this) = calls this @ map StoreLogs cs \<and>
   queue (fold storeLogs_js cs this) = queue this \<and>
   totalLen (fold storeLogs_js cs this) = totalLen this \<and>
   outputCache (fold storeLogs_js cs this) = outputCache this"
  by (induction cs arbitrary: this) (simp_all add: storeLogs_js_fields)

lemma flush_js_ready:
  assumes "0 < totalLen this" and "isReady (logStorage this) (storage this) = (Returns True, s1)"
  shows "calls (flush_js force reschedule this) =
           calls this @ [IsReady] @ map StoreLogs (outputCache this) @ [StoreLogs (queue this)]
         \<and> outputCache (flush_js force reschedule this) = []
         \<and> queue (flush_js force reschedule this) = []
         \<and> totalLen (flush_js force reschedule this) = 0"
proof -
  let ?t1 = "this\<lparr>storage := s1, calls := calls this @ [IsReady]\<rparr>"
  have r: "isReady_js this = (True, ?t1)"
    by (simp add: isReady_js_def call_isReady_eq[OF assms(2)])
  show ?thesis
    using assms(1)
    by (simp add: flush_js_def r storeLogs_js_fields fold_storeLogs_js_fields Let_def)
qed

section \<open>The queue as a run-length grouping\<close>

lemma run_length_Nil_iff: "run_length xs = [] \<longleftrightarrow> xs = []"
  by (cases xs) simp_all

lemma last_dropWhile: "dropWhile P xs \<noteq> [] \<Longrightarrow> last (dropWhile P xs) = last xs"
proof -
  assume d: "dropWhile P xs \<noteq> []"
  have "last (takeWhile P xs @ dropWhile P xs) = last (dropWhile P xs)"
    using d by (rule last_appendR)
  then show ?thesis by simp
qed

lemma takeWhile_snoc:
  "takeWhile P (xs @ [x]) =
     (if \<forall>y\<in>set xs. P y then (if P x then xs @ [x] else xs) else takeWhile P xs)"
  by (induction xs) auto

lemma dropWhile_snoc:
  "dropWhile P (xs @ [x]) =
     (if \<forall>y\<in>set xs. P y then (if P x then [] else [x]) else dropWhile P xs @ [x])"
  by (induction xs) auto

lemma fst_last_run_length: "xs \<noteq> [] \<Longrightarrow> fst (last (run_length xs)) = last xs"
proof (induction xs rule: run_length.induct)
  case 1
  then show ?case by simp
next
  case (2 x xs)
  show ?case
  proof (cases "\<forall>y\<in>set xs. y = x")
    case True
    then have l: "last (x # xs) = x" by (cases xs rule: rev_cases) auto
    from True have "dropWhile (\<lambda>y. y = x) xs = []" by simp
    then have rl: "run_length (x # xs) = [(x, Suc (length (takeWhile (\<lambda>y. y = x) xs)))]"
      by (simp only: run_length.simps)
    show ?thesis unfolding rl l by simp
  next
    case False
    then have d: "dropWhile (\<lambda>y. y = x) xs \<noteq> []" by simp
    then have ne: "run_length (dropWhile (\<lambda>y. y = x) xs) \<noteq> []"
      by (simp only: run_length_Nil_iff not_False_eq_True)
    have "xs \<noteq> []" using d by auto
    moreover have "fst (last (run_length (dropWhile (\<lambda>y. y = x) xs))) = last xs"
      using "2.IH"[OF d] last_dropWhile[OF d] by simp
    ultimately show ?thesis using ne by simp
  qed
qed

lemma run_length_snoc: "run_length (xs @ [x]) = snoc_run (run_length xs) x"
proof (induction xs rule: run_length.induct)
  case 1
  then show ?case by (simp add: snoc_run_def)
next
  case (2 a xs)
  show ?case
  proof (cases "\<forall>y\<in>set xs. y = a")
    case True
    then have "takeWhile (\<lambda>y. y = a) xs = xs" by simp
    then have t: "length (takeWhile (\<lambda>y. y = a) xs) = length xs" by (simp only:)
    from True have "dropWhile (\<lambda>y. y = a) xs = []" by simp
    then have d: "run_length (dropWhile (\<lambda>y. y = a) xs) = []" by (simp only: run_length.simps)
    have "run_length (a # xs) = [(a, Suc (length xs))]"
      by (simp only: run_length.simps t d)
    moreover have "run_length ((a # xs) @ [x]) =
        (if x = a then [(a, Suc (Suc (length xs)))] else [(a, Suc (length xs)), (x, 1)])"
      using True by (simp add: takeWhile_snoc dropWhile_snoc)
    ultimately show ?thesis by (simp add: snoc_run_def)
  next
    case False
    then have d: "dropWhile (\<lambda>y. y = a) xs \<noteq> []" by simp
    then have ne: "run_length (dropWhile (\<lambda>y. y = a) xs) \<noteq> []"
      by (simp only: run_length_Nil_iff not_False_eq_True)
    have ih: "run_length (dropWhile (\<lambda>y. y = a) xs @ [x]) =
        snoc_run (run_length (dropWhile (\<lambda>y. y = a) xs)) x"
      by (rule 2)
    have "run_length ((a # xs) @ [x]) =
        (a, Suc (length (takeWhile (\<lambda>y. y = a) xs))) #
        snoc_run (run_length (dropWhile (\<lambda>y. y = a) xs)) x"
      by (simp add: takeWhile_snoc dropWhile_snoc ih False)
    also have "\<dots> = snoc_run (run_length (a # xs)) x"
      using ne by (simp add: snoc_run_def)
    finally show ?thesis .
  qed
qed

text \<open>
  The grouping decodes to the list, its counts are positive and neighbouring pairs are of
  different elements: it is the run-length grouping.
\<close>

lemma run_length_decode:
  "concat (map (\<lambda>(x, n). replicate n x) (run_length xs)) = xs"
proof (induction xs rule: run_length.induct)
  case 1
  show ?case by simp
next
  case (2 x xs)
  have "\<forall>y\<in>set (takeWhile (\<lambda>y. y = x) xs). y = x"
    by (auto dest: set_takeWhileD)
  then have "replicate (length (takeWhile (\<lambda>y. y = x) xs)) x = takeWhile (\<lambda>y. y = x) xs"
    by (simp add: replicate_length_same)
  with 2 show ?case by simp
qed

lemma run_length_positive: "(x, n) \<in> set (run_length xs) \<Longrightarrow> 0 < n"
  by (induction xs rule: run_length.induct) auto

lemma run_length_distinct_adj: "distinct_adj (map fst (run_length xs))"
proof (induction xs rule: run_length.induct)
  case 1
  show ?case by simp
next
  case (2 x xs)
  show ?case
  proof (cases "dropWhile (\<lambda>y. y = x) xs")
    case Nil
    then have "run_length (dropWhile (\<lambda>y. y = x) xs) = []" by (simp only: run_length.simps)
    then show ?thesis by (simp only: run_length.simps list.map fst_conv distinct_adj_singleton)
  next
    case (Cons y ys)
    then have "y \<noteq> x" using hd_dropWhile[of "\<lambda>y. y = x" xs] by simp
    with 2 Cons show ?thesis by simp
  qed
qed


lemma sum_snoc_run:
  "sum_list (map (\<lambda>p. length (fst p)) (snoc_run q x)) =
     sum_list (map (\<lambda>p. length (fst p)) q) + (if q \<noteq> [] \<and> fst (last q) = x then 0 else length x)"
proof (cases "q \<noteq> [] \<and> fst (last q) = x")
  case True
  then have "q = butlast q @ [last q]" by simp
  then have "sum_list (map (\<lambda>p. length (fst p)) q) =
      sum_list (map (\<lambda>p. length (fst p)) (butlast q)) + length (fst (last q))"
    by (metis (no_types, lifting) list.map(1) list.map(2) map_append sum_list.Cons sum_list.Nil
        sum_list_append add.right_neutral)
  with True show ?thesis by (simp add: snoc_run_def)
next
  case False
  then show ?thesis by (auto simp: snoc_run_def)
qed

text \<open>The aggregation step of \<^verbatim>\<open>_log\<close> on the texts and counts of the queue.\<close>

lemma aggregate_snoc_run:
  "map (\<lambda>e. (entry_text e, count e)) (queue (aggregate msg ts this)) =
     snoc_run (map (\<lambda>e. (entry_text e, count e)) (queue this)) msg"
  by (auto simp: aggregate_def snoc_run_def last_map map_butlast)

lemma aggregate_totalLen:
  "totalLen (aggregate msg ts this) =
     totalLen this + (if queue this \<noteq> [] \<and> entry_text (last (queue this)) = msg then 0 else length msg)"
  by (simp add: aggregate_def)

lemma aggregate_frame:
  "aggregate msg ts this = this\<lparr>queue := queue (aggregate msg ts this), totalLen := totalLen (aggregate msg ts this)\<rparr>"
  by (simp add: aggregate_def)

lemma aggregate_frame_from:
  assumes "t = this\<lparr>queue := q, totalLen := n\<rparr>"
  shows "aggregate msg ts t =
           this\<lparr>queue := queue (aggregate msg ts t), totalLen := totalLen (aggregate msg ts t)\<rparr>"
proof -
  have "aggregate msg ts t =
      t\<lparr>queue := queue (aggregate msg ts t), totalLen := totalLen (aggregate msg ts t)\<rparr>"
    by (rule aggregate_frame)
  also have "\<dots> =
      this\<lparr>queue := queue (aggregate msg ts t), totalLen := totalLen (aggregate msg ts t)\<rparr>"
    by (subst assms) simp
  finally show ?thesis .
qed

lemma log_message_frame:
  "log_message (this\<lparr>queue := q, totalLen := n\<rparr>) logLevel arguments = log_message this logLevel arguments"
  by (simp add: log_message_def formatLogMessage_def)

lemma log_all_snoc:
  "log_all (subs @ [(logLevel, arguments)]) this =
     (case log_all subs this of
        (Raises e, t) \<Rightarrow> (Raises e, t)
      | (Returns u, t) \<Rightarrow> log' logLevel arguments t)"
  by (induction subs arbitrary: this) (auto split: prod.splits completion.splits)

lemma submitted_texts_snoc:
  "submitted_texts this (subs @ [(logLevel, arguments)]) =
     submitted_texts this subs @
     (case log_message this logLevel arguments of
        None \<Rightarrow> []
      | Some msg \<Rightarrow> if msg \<noteq> [] then [msg] else [])"
  by (simp add: submitted_texts_def List.map_filter_def split: option.splits)


lemma log_enqueue_cases:
  "log_enqueue logLevel arguments this =
     (case log_message this logLevel arguments of
        None \<Rightarrow> this
      | Some msg \<Rightarrow>
          if msg \<noteq> []
          then aggregate msg (case arguments of [] \<Rightarrow> JUndefined | ts # rest \<Rightarrow> ts) this
          else this)"
  by (simp add: log_enqueue_def)

lemma texts_length_snoc: "texts_length msgs \<le> texts_length (msgs @ [m])"
  by (simp add: texts_length_def run_length_snoc sum_snoc_run)

lemma log_all_run_length:
  assumes "queue this = []" and "totalLen this = 0"
    and "int (texts_length (submitted_texts this subs)) < maxEntryLength this"
  shows "\<exists>t. log_all subs this = (Returns (), t)
           \<and> t = this\<lparr>queue := queue t, totalLen := totalLen t\<rparr>
           \<and> map (\<lambda>e. (entry_text e, count e)) (queue t) = run_length (submitted_texts this subs)
           \<and> totalLen t = sum_list (map (\<lambda>e. length (entry_text e)) (queue t))"
  using assms(3)
proof (induction subs rule: rev_induct)
  case Nil
  have "this = this\<lparr>queue := queue this, totalLen := totalLen this\<rparr>" by simp
  with assms(1,2) show ?case by (simp add: submitted_texts_def List.map_filter_def)
next
  case (snoc sub subs)
  obtain logLevel arguments where sub: "sub = (logLevel, arguments)" by (cases sub)
  let ?msgs = "submitted_texts this subs"
  have le: "texts_length ?msgs \<le> texts_length (submitted_texts this (subs @ [sub]))"
    unfolding sub submitted_texts_snoc
    by (auto simp: texts_length_snoc split: option.splits)
  with snoc.prems have "int (texts_length ?msgs) < maxEntryLength this" by simp
  from snoc.IH[OF this] obtain t where
    run: "log_all subs this = (Returns (), t)"
    and fr: "t = this\<lparr>queue := queue t, totalLen := totalLen t\<rparr>"
    and q: "map (\<lambda>e. (entry_text e, count e)) (queue t) = run_length ?msgs"
    and n: "totalLen t = sum_list (map (\<lambda>e. length (entry_text e)) (queue t))"
    by blast
  have mx: "maxEntryLength t = maxEntryLength this"
    by (subst fr) simp
  have lm: "log_message t logLevel arguments = log_message this logLevel arguments"
    by (subst fr) (simp add: log_message_frame)
  have step: "log_all (subs @ [sub]) this = log' logLevel arguments t"
    by (simp add: sub log_all_snoc run)
  let ?a = "log_enqueue logLevel arguments t"
  have n': "totalLen t = texts_length ?msgs"
    using n q[symmetric] by (simp add: texts_length_def comp_def)
  show ?case
  proof (cases "\<exists>msg. log_message this logLevel arguments = Some msg \<and> msg \<noteq> []")
    case False
    then have a: "?a = t" and s: "submitted_texts this (subs @ [sub]) = ?msgs"
      by (auto simp: log_enqueue_cases lm sub submitted_texts_snoc split: option.splits)
    have "log' logLevel arguments t = (Returns (), t)"
      using snoc.prems n' by (simp add: log'_def a mx s)
    with step fr q n s show ?thesis by simp
  next
    case True
    then obtain msg where m: "log_message this logLevel arguments = Some msg" "msg \<noteq> []"
      by blast
    let ?ts = "case arguments of [] \<Rightarrow> JUndefined | ts # rest \<Rightarrow> ts"
    have a: "?a = aggregate msg ?ts t"
      using m by (simp add: log_enqueue_cases lm)
    have s: "submitted_texts this (subs @ [sub]) = ?msgs @ [msg]"
      using m by (simp add: sub submitted_texts_snoc)
    have q': "map (\<lambda>e. (entry_text e, count e)) (queue ?a) = run_length (?msgs @ [msg])"
      by (simp add: a aggregate_snoc_run q run_length_snoc)
    have sq: "sum_list (map (\<lambda>e. length (entry_text e)) (queue ?a)) =
        texts_length (?msgs @ [msg])"
    proof -
      have "sum_list (map (\<lambda>e. length (entry_text e)) (queue ?a)) =
          sum_list (map (\<lambda>p. length (fst p)) (map (\<lambda>e. (entry_text e, count e)) (queue ?a)))"
        by (simp add: comp_def)
      also have "\<dots> = texts_length (?msgs @ [msg])"
        by (simp only: q' texts_length_def)
      finally show ?thesis .
    qed
    have n'': "totalLen ?a = sum_list (map (\<lambda>e. length (entry_text e)) (queue ?a))"
    proof -
      have "texts_length (?msgs @ [msg]) = texts_length ?msgs +
          (if run_length ?msgs \<noteq> [] \<and> fst (last (run_length ?msgs)) = msg then 0 else length msg)"
        by (simp add: texts_length_def run_length_snoc sum_snoc_run)
      also have "\<dots> = totalLen ?a"
        using q[symmetric] by (auto simp: a aggregate_totalLen n' last_map)
      finally show ?thesis using sq by simp
    qed
    have tl: "int (totalLen ?a) < maxEntryLength this"
      using snoc.prems by (simp add: s n'' sq)
    have fa: "?a = this\<lparr>queue := queue ?a, totalLen := totalLen ?a\<rparr>"
      unfolding a by (rule aggregate_frame_from[OF fr])
    have mxa: "maxEntryLength ?a = maxEntryLength this"
      by (subst fa) simp
    have "log' logLevel arguments t = (Returns (), ?a)"
      using tl by (simp add: log'_def mxa)
    with step fa q' n'' s show ?thesis by simp
  qed
qed

text \<open>
  Claim C5. Submissions made one after the other to a collector with an empty queue, none
  of which brings the total length up to \<^verbatim>\<open>maxEntryLength\<close> (so that no flush comes
  between them), all return and change the queue and the total length only. The texts and
  counts of the queue are the run-length grouping of the non-empty formatted messages: the
  entries repeated by their counts are the messages in order, every count is positive,
  neighbouring entries have different texts. The total length is the sum of the lengths of
  the entries' texts, each counted once.
\<close>

theorem queue_is_run_length_grouping:
  assumes "queue this = []" and "totalLen this = 0"
    and "int (texts_length (submitted_texts this subs)) < maxEntryLength this"
  shows "\<exists>t. log_all subs this = (Returns (), t)
           \<and> t = this\<lparr>queue := queue t, totalLen := totalLen t\<rparr>
           \<and> map (\<lambda>e. (entry_text e, count e)) (queue t) = run_length (submitted_texts this subs)
           \<and> concat (map (\<lambda>e. replicate (count e) (entry_text e)) (queue t)) =
               submitted_texts this subs
           \<and> (\<forall>e \<in> set (queue t). 0 < count e)
           \<and> distinct_adj (map entry_text (queue t))
           \<and> totalLen t = sum_list (map (\<lambda>e. length (entry_text e)) (queue t))"
proof -
  from log_all_run_length[OF assms] obtain t where
    run: "log_all subs this = (Returns (), t)"
    and fr: "t = this\<lparr>queue := queue t, totalLen := totalLen t\<rparr>"
    and q: "map (\<lambda>e. (entry_text e, count e)) (queue t) = run_length (submitted_texts this subs)"
    and n: "totalLen t = sum_list (map (\<lambda>e. length (entry_text e)) (queue t))"
    by blast
  have "concat (map (\<lambda>e. replicate (count e) (entry_text e)) (queue t)) =
      concat (map (\<lambda>(x, n). replicate n x) (map (\<lambda>e. (entry_text e, count e)) (queue t)))"
    by (simp add: comp_def)
  then have d: "concat (map (\<lambda>e. replicate (count e) (entry_text e)) (queue t)) =
      submitted_texts this subs"
    by (simp only: q run_length_decode)
  have p: "0 < count e" if "e \<in> set (queue t)" for e
  proof -
    from that have "(entry_text e, count e) \<in> set (map (\<lambda>e. (entry_text e, count e)) (queue t))"
      by (rule imageI[of e "set (queue t)" "\<lambda>e. (entry_text e, count e)", folded set_map])
    then show ?thesis
      unfolding q by (rule run_length_positive)
  qed
  have "map entry_text (queue t) = map fst (map (\<lambda>e. (entry_text e, count e)) (queue t))"
    by (simp add: comp_def)
  then have a: "distinct_adj (map entry_text (queue t))"
    by (simp only: q run_length_distinct_adj)
  from run fr q d p a n show ?thesis by blast
qed

theorem queue_is_run_length_grouping_witness:
  "submitted_texts (new_LogCollector flag_storage None True [] 1) hello_hello_world =
     [''hello'', ''hello'', ''world'']
   \<and> (\<exists>t. log_all hello_hello_world (new_LogCollector flag_storage None True [] 1) =
              (Returns (), t)
           \<and> map (\<lambda>e. (entry_text e, count e)) (queue t) = [(''hello'', 2), (''world'', 1)]
           \<and> totalLen t = sum_list (map (\<lambda>e. length (entry_text e)) (queue t)))
   \<and> totalLen (snd (log_all hello_hello_world (new_LogCollector flag_storage None True [] 1))) = 10
   \<and> (\<exists>t. log_all a_b_a (new_LogCollector flag_storage None True [] 1) = (Returns (), t)
           \<and> map (\<lambda>e. (entry_text e, count e)) (queue t) =
               [(''A'', 1), (''B'', 1), (''A'', 1)])"
proof -
  let ?c = "new_LogCollector flag_storage None True [] 1"
  have q: "queue ?c = []" and n: "totalLen ?c = 0" and m: "maxEntryLength ?c = 10000"
    by (simp_all add: collector_defs)
  have s1: "submitted_texts ?c hello_hello_world = [''hello'', ''hello'', ''world'']"
    by (simp add: submitted_texts_def List.map_filter_def collector_defs input_defs)
  have s2: "submitted_texts ?c a_b_a = [''A'', ''B'', ''A'']"
    by (simp add: submitted_texts_def List.map_filter_def collector_defs input_defs)
  have r1: "run_length [''hello'', ''hello'', ''world''] = [(''hello'', 2), (''world'', 1)]"
    by simp
  have r2: "run_length [''A'', ''B'', ''A''] = [(''A'', 1), (''B'', 1), (''A'', 1)]"
    by simp
  have h1: "int (texts_length (submitted_texts ?c hello_hello_world)) < maxEntryLength ?c"
    unfolding s1 m texts_length_def r1 by simp
  have h2: "int (texts_length (submitted_texts ?c a_b_a)) < maxEntryLength ?c"
    unfolding s2 m texts_length_def r2 by simp
  note g1 = queue_is_run_length_grouping[OF q n h1, unfolded s1 r1]
  note g2 = queue_is_run_length_grouping[OF q n h2, unfolded s2 r2]
  from g1 obtain t1 where "log_all hello_hello_world ?c = (Returns (), t1)"
    and "map (\<lambda>e. (entry_text e, count e)) (queue t1) = [(''hello'', 2), (''world'', 1)]"
    and "totalLen t1 = sum_list (map (\<lambda>e. length (entry_text e)) (queue t1))"
    by (elim exE conjE)
  then have w1: "\<exists>t. log_all hello_hello_world ?c = (Returns (), t)
      \<and> map (\<lambda>e. (entry_text e, count e)) (queue t) = [(''hello'', 2), (''world'', 1)]
      \<and> totalLen t = sum_list (map (\<lambda>e. length (entry_text e)) (queue t))"
    by (intro exI[of _ t1] conjI)
  from g2 obtain t2 where "log_all a_b_a ?c = (Returns (), t2)"
    and "map (\<lambda>e. (entry_text e, count e)) (queue t2) = [(''A'', 1), (''B'', 1), (''A'', 1)]"
    by (elim exE conjE)
  then have w2: "\<exists>t. log_all a_b_a ?c = (Returns (), t)
      \<and> map (\<lambda>e. (entry_text e, count e)) (queue t) = [(''A'', 1), (''B'', 1), (''A'', 1)]"
    by (intro exI[of _ t2] conjI)
  have t: "totalLen (snd (log_all hello_hello_world ?c)) = 10"
    by (simp add: collector_defs input_defs)
  from s1 w1 t w2 show ?thesis by (intro conjI)
qed

end
